theory Spec2Isabelle
  imports Main "HOL-Library.Char_ord" "HOL-Library.List_Lexorder" "HOL-Library.AList"
begin

section \<open>Content entries\<close>

text \<open>
  The three build scripts of the garden (\<^verbatim>\<open>generate-backlinks.js\<close>,
  \<^verbatim>\<open>generate-search-index.js\<close>, \<^verbatim>\<open>generate-graph-data.js\<close>) all start from
  \<^verbatim>\<open>allContent = [...getCollection('notes'), ...getCollection('concepts')]\<close>.
  An entry carries \<^verbatim>\<open>entry.slug\<close>, \<^verbatim>\<open>entry.collection\<close>, the front matter
  \<^verbatim>\<open>entry.data.title\<close>, \<^verbatim>\<open>entry.data.description\<close>, \<^verbatim>\<open>entry.data.summary\<close>
  (both optional), and the text the scripts scan,
  \<^verbatim>\<open>textContent = Content.toString()\<close>.

  JavaScript strings are modelled as \<^typ>\<open>string\<close>: lists of 8-bit code units, read as
  the code points U+0000 to U+00FF. Strings are compared by code unit, which is the order
  of \<^theory_text>\<open>Char_ord\<close> and \<^theory_text>\<open>List_Lexorder\<close>.
\<close>

record entry =
  slug :: string
  collection :: string
  title :: string
  description :: "string option"
  summary :: "string option"
  textContent :: string

section \<open>String primitives\<close>

text \<open>
  \<^verbatim>\<open>String.prototype.toLowerCase\<close> on the code points below U+0100: the letters
  A to Z and the Latin-1 capitals U+00C0 to U+00DE (but not the multiplication sign
  U+00D7) move up by 32; every other code point is kept.
\<close>

definition lower_char :: "char \<Rightarrow> char" where
  "lower_char c =
     (let n = (of_char c :: nat)
      in if (65 \<le> n \<and> n \<le> 90) \<or> (192 \<le> n \<and> n \<le> 222 \<and> n \<noteq> 215)
         then char_of (n + 32) else c)"

definition toLowerCase :: "string \<Rightarrow> string" where
  "toLowerCase s = map lower_char s"

text \<open>
  The regular expression \<^verbatim>\<open>/\[\[(.*?)\]\]/g\<close>. The dot matches every code unit but
  a line terminator (of those, line feed and carriage return lie below U+0100).
  \<open>lazy_body acc s\<close> is the lazy group \<^verbatim>\<open>(.*?)\<close> followed by \<^verbatim>\<open>\]\]\<close>, tried on
  \<open>s\<close> after an opening \<^verbatim>\<open>[[\<close>: at each position the closing brackets are tried
  first, and only then one more character is consumed. It returns the captured group and
  the text after the match.
\<close>

definition is_line_terminator :: "char \<Rightarrow> bool" where
  "is_line_terminator c = (c = CHR 0x0A \<or> c = CHR 0x0D)"

fun lazy_body :: "string \<Rightarrow> string \<Rightarrow> (string \<times> string) option" where
  "lazy_body acc [] = None"
| "lazy_body acc (c # cs) =
     (if take 2 (c # cs) = '']]'' then Some (rev acc, drop 1 cs)
      else if is_line_terminator c then None
      else lazy_body (c # acc) cs)"

text \<open>
  \<open>regex_exec s\<close> is one call of \<^verbatim>\<open>regex.exec(textContent)\<close>, where \<open>s\<close> is the
  text from \<^verbatim>\<open>regex.lastIndex\<close> on: the leftmost start position at which the pattern
  matches wins. The result is \<^verbatim>\<open>match[1]\<close> and the text from the new
  \<^verbatim>\<open>lastIndex\<close> on, or \<open>None\<close> for \<^verbatim>\<open>null\<close>.
\<close>

fun regex_exec :: "string \<Rightarrow> (string \<times> string) option" where
  "regex_exec [] = None"
| "regex_exec (c # cs) =
     (if take 2 (c # cs) = ''[[''
      then (case lazy_body [] (drop 1 cs) of
              Some r \<Rightarrow> Some r
            | None \<Rightarrow> regex_exec cs)
      else regex_exec cs)"

text \<open>A match consumes at least its four brackets, so the scan loops end.\<close>

lemma lazy_body_shorter:
  "lazy_body acc s = Some (m, rest) \<Longrightarrow> length rest < length s"
proof (induction s arbitrary: acc)
  case Nil
  then show ?case by simp
next
  case (Cons c cs)
  show ?case
  proof (cases "take 2 (c # cs) = '']]''")
    case True
    with Cons.prems show ?thesis by auto
  next
    case False
    with Cons.prems have "lazy_body (c # acc) cs = Some (m, rest)"
      by (simp split: if_splits)
    from Cons.IH [OF this] show ?thesis by simp
  qed
qed

lemma regex_exec_shorter:
  "regex_exec s = Some (m, rest) \<Longrightarrow> length rest < length s"
proof (induction s)
  case Nil
  then show ?case by simp
next
  case (Cons c cs)
  show ?case
  proof (cases "take 2 (c # cs) = ''[[''")
    case True
    show ?thesis
    proof (cases "lazy_body [] (drop 1 cs)")
      case None
      with True Cons show ?thesis by auto
    next
      case (Some r)
      with True Cons.prems have "lazy_body [] (drop 1 cs) = Some (m, rest)" by simp
      from lazy_body_shorter [OF this] show ?thesis by simp
    qed
  next
    case False
    with Cons show ?thesis by auto
  qed
qed

section \<open>The title map\<close>

text \<open>
  \<^verbatim>\<open>allContent.forEach(entry => titleToSlugMap.set(entry.data.title.toLowerCase(), entry.slug))\<close>:
  a later entry overwrites an earlier one with the same lower-cased title.
\<close>

definition titleToSlugMap :: "entry list \<Rightarrow> (string \<rightharpoonup> string)" where
  "titleToSlugMap allContent =
     fold (\<lambda>entry m. m(toLowerCase (title entry) \<mapsto> slug entry)) allContent Map.empty"

section \<open>The console and the files\<close>

text \<open>
  The scripts print with \<^verbatim>\<open>console.log\<close> and \<^verbatim>\<open>console.warn\<close> and write one JSON
  file each with \<^verbatim>\<open>fs.writeFile\<close>, which replaces the file. A file holds the value
  that was given to \<^verbatim>\<open>JSON.stringify\<close>. The search index is built by the library
  \<^verbatim>\<open>lunr\<close>, which is not part of the repository: the type \<open>'i\<close> stands for what
  \<^verbatim>\<open>idx.toJSON()\<close> returns.
\<close>

datatype console_line = Log string | Warn string

datatype error = TypeError

text \<open>
  A plain object \<^verbatim>\<open>{}\<close> used as a dictionary with string keys: its own properties in
  creation order. (\<^verbatim>\<open>JSON.stringify\<close> lists keys that are array indices first; the
  order of the keys plays no role below.)
\<close>

type_synonym backlinks = "(string \<times> string list) list"

record node =
  n_id :: string
  n_label :: string
  n_group :: string
  n_url :: string

record edge =
  e_from :: string
  e_to :: string
  e_arrows :: string

record graph =
  nodes :: "node list"
  edges :: "edge list"

record document =
  d_id :: string
  d_title :: string
  d_description :: string
  d_content :: string

record store_entry =
  s_title :: string
  s_description :: string
  s_url :: string

type_synonym store = "(string \<times> store_entry) list"

datatype 'i artifact =
    BacklinksJson backlinks
  | SearchJson 'i store
  | GraphJson graph

record 'i world =
  console :: "console_line list"
  files :: "string \<rightharpoonup> 'i artifact"

section \<open>generate-backlinks.js\<close>

text \<open>
  \<^verbatim>\<open>const backlinks = {}\<close> inherits from \<^verbatim>\<open>Object.prototype\<close>. Reading
  \<^verbatim>\<open>backlinks[targetSlug]\<close> gives the array stored under that key, or, when the key is
  not an own property, what \<^verbatim>\<open>Object.prototype\<close> has under that name (a function, or
  the prototype itself for \<^verbatim>\<open>__proto__\<close>), or \<^verbatim>\<open>undefined\<close>.
\<close>

definition object_prototype_keys :: "string list" where
  "object_prototype_keys =
     [''constructor'', ''__defineGetter__'', ''__defineSetter__'', ''hasOwnProperty'',
      ''__lookupGetter__'', ''__lookupSetter__'', ''isPrototypeOf'',
      ''propertyIsEnumerable'', ''toString'', ''valueOf'', ''__proto__'',
      ''toLocaleString'']"

datatype property = Undefined | Array "string list" | Inherited

definition get_property :: "backlinks \<Rightarrow> string \<Rightarrow> property" where
  "get_property bl k =
     (case map_of bl k of
        Some sources \<Rightarrow> Array sources
      | None \<Rightarrow> if k \<in> set object_prototype_keys then Inherited else Undefined)"

text \<open>
  The body of \<^verbatim>\<open>if (targetSlug) { ... }\<close>:
  \<^verbatim>\<open>
  if (!backlinks[targetSlug]) { backlinks[targetSlug] = []; }
  if (!backlinks[targetSlug].includes(entry.slug)) { backlinks[targetSlug].push(entry.slug); }
  \<close>
  An array is truthy, and so is an inherited property; an inherited property has no
  method \<^verbatim>\<open>includes\<close>, so calling it throws a \<^verbatim>\<open>TypeError\<close>.
\<close>

definition add_backlink :: "string \<Rightarrow> string \<Rightarrow> backlinks \<Rightarrow> error + backlinks" where
  "add_backlink targetSlug source bl =
     (let bl1 = (if get_property bl targetSlug = Undefined
                 then AList.update targetSlug [] bl else bl)
      in case get_property bl1 targetSlug of
           Array sources \<Rightarrow>
             Inr (if source \<in> set sources then bl1
                  else AList.update targetSlug (sources @ [source]) bl1)
         | Inherited \<Rightarrow> Inl TypeError
         | Undefined \<Rightarrow> Inl TypeError)"

definition unresolved_warning :: "string \<Rightarrow> string \<Rightarrow> console_line" where
  "unresolved_warning linkedTitle source =
     Warn (''Warning: Unresolved internal link '[['' @ linkedTitle @ '']]' in '' @ source)"

text \<open>
  One iteration of \<^verbatim>\<open>while ((match = regex.exec(textContent)) !== null) { ... }\<close> in
  \<^verbatim>\<open>generateBacklinks\<close>, for \<^verbatim>\<open>linkedTitle = match[1]\<close>, on the pair of
  \<^verbatim>\<open>backlinks\<close> and the console. The test \<^verbatim>\<open>if (targetSlug)\<close> passes when the
  title map has a value for the key and the value is not the empty string; otherwise the
  warning is printed.
\<close>

definition backlinks_body ::
  "(string \<rightharpoonup> string) \<Rightarrow> string \<Rightarrow> string \<Rightarrow> backlinks \<times> console_line list
     \<Rightarrow> error + backlinks \<times> console_line list" where
  "backlinks_body titleMap source linkedTitle st =
     (case st of (bl, out) \<Rightarrow>
        (case titleMap (toLowerCase linkedTitle) of
           Some targetSlug \<Rightarrow>
             if targetSlug \<noteq> [] then
               (case add_backlink targetSlug source bl of
                  Inl e \<Rightarrow> Inl e
                | Inr bl' \<Rightarrow> Inr (bl', out))
             else Inr (bl, out @ [unresolved_warning linkedTitle source])
         | None \<Rightarrow> Inr (bl, out @ [unresolved_warning linkedTitle source])))"

function backlinks_while ::
  "(string \<rightharpoonup> string) \<Rightarrow> string \<Rightarrow> string \<Rightarrow> backlinks \<times> console_line list
     \<Rightarrow> error + backlinks \<times> console_line list" where
  "backlinks_while titleMap source text st =
     (case regex_exec text of
        None \<Rightarrow> Inr st
      | Some (linkedTitle, rest) \<Rightarrow>
          (case backlinks_body titleMap source linkedTitle st of
             Inl e \<Rightarrow> Inl e
           | Inr st' \<Rightarrow> backlinks_while titleMap source rest st'))"
  by pat_completeness auto
termination
  by (relation "measure (\<lambda>(titleMap, source, text, st). length text)")
     (auto dest: regex_exec_shorter)

text \<open>\<^verbatim>\<open>for (const entry of allContent) { ... }\<close> of \<^verbatim>\<open>generateBacklinks\<close>.\<close>

fun backlinks_for ::
  "(string \<rightharpoonup> string) \<Rightarrow> entry list \<Rightarrow> backlinks \<times> console_line list
     \<Rightarrow> error + backlinks \<times> console_line list" where
  "backlinks_for titleMap [] st = Inr st"
| "backlinks_for titleMap (entry # es) st =
     (case backlinks_while titleMap (slug entry) (textContent entry) st of
        Inl e \<Rightarrow> Inl e
      | Inr st' \<Rightarrow> backlinks_for titleMap es st')"

definition generateBacklinks :: "entry list \<Rightarrow> 'i world \<Rightarrow> error + 'i world" where
  "generateBacklinks allContent w =
     (case backlinks_for (titleToSlugMap allContent) allContent
             ([], console w @ [Log ''Generating backlinks...'']) of
        Inl e \<Rightarrow> Inl e
      | Inr (bl, out) \<Rightarrow>
          Inr \<lparr>console = out @ [Log ''Backlinks generated successfully!''],
               files = (files w)(''src/data/backlinks.json'' \<mapsto> BacklinksJson bl)\<rparr>)"

section \<open>generate-graph-data.js\<close>

text \<open>
  First pass: \<^verbatim>\<open>allContent.forEach(entry => { nodes.push({...}); slugToTitleMap.set(title.toLowerCase(), id) })\<close>.
\<close>

definition node_of :: "entry \<Rightarrow> node" where
  "node_of entry =
     \<lparr>n_id = slug entry, n_label = title entry, n_group = collection entry,
      n_url = ''/'' @ collection entry @ ''/'' @ slug entry\<rparr>"

definition first_pass ::
  "entry list \<Rightarrow> node list \<times> (string \<rightharpoonup> string)" where
  "first_pass allContent =
     fold (\<lambda>entry (ns, m).
             (ns @ [node_of entry], m(toLowerCase (title entry) \<mapsto> slug entry)))
          allContent ([], Map.empty)"

text \<open>
  Second pass: one iteration of the while loop pushes an edge when the match resolves,
  under the same test \<^verbatim>\<open>if (targetId)\<close>; there is no else branch.
\<close>

definition graph_body ::
  "(string \<rightharpoonup> string) \<Rightarrow> string \<Rightarrow> string \<Rightarrow> edge list \<Rightarrow> edge list" where
  "graph_body slugToTitleMap sourceId linkedTitle es =
     (case slugToTitleMap (toLowerCase linkedTitle) of
        Some targetId \<Rightarrow>
          if targetId \<noteq> []
          then es @ [\<lparr>e_from = sourceId, e_to = targetId, e_arrows = ''to''\<rparr>]
          else es
      | None \<Rightarrow> es)"

function graph_while ::
  "(string \<rightharpoonup> string) \<Rightarrow> string \<Rightarrow> string \<Rightarrow> edge list \<Rightarrow> edge list" where
  "graph_while slugToTitleMap sourceId text es =
     (case regex_exec text of
        None \<Rightarrow> es
      | Some (linkedTitle, rest) \<Rightarrow>
          graph_while slugToTitleMap sourceId rest
            (graph_body slugToTitleMap sourceId linkedTitle es))"
  by pat_completeness auto
termination
  by (relation "measure (\<lambda>(slugToTitleMap, sourceId, text, es). length text)")
     (auto dest: regex_exec_shorter)

definition second_pass :: "(string \<rightharpoonup> string) \<Rightarrow> entry list \<Rightarrow> edge list" where
  "second_pass slugToTitleMap allContent =
     fold (\<lambda>entry es. graph_while slugToTitleMap (slug entry) (textContent entry) es)
          allContent []"

definition graphData :: "entry list \<Rightarrow> graph" where
  "graphData allContent =
     (case first_pass allContent of
        (ns, slugToTitleMap) \<Rightarrow>
          \<lparr>nodes = ns, edges = second_pass slugToTitleMap allContent\<rparr>)"

definition generateGraphData :: "entry list \<Rightarrow> 'i world \<Rightarrow> 'i world" where
  "generateGraphData allContent w =
     \<lparr>console = console w @ [Log ''Generating graph data...'',
                               Log ''Graph data generated successfully!''],
      files = (files w)(''src/data/graph-data.json'' \<mapsto> GraphJson (graphData allContent))\<rparr>"

section \<open>generate-search-index.js\<close>

text \<open>
  \<^verbatim>\<open>entry.data.description || entry.data.summary || ''\<close>: the first of the two that is
  defined and not empty.
\<close>

definition or_else :: "string option \<Rightarrow> string \<Rightarrow> string" where
  "or_else a b = (case a of Some s \<Rightarrow> if s \<noteq> [] then s else b | None \<Rightarrow> b)"

definition description_of :: "entry \<Rightarrow> string" where
  "description_of entry = or_else (description entry) (or_else (summary entry) [])"

text \<open>
  \<^verbatim>\<open>store[id] = {...}\<close> on a plain object: an assignment to the key
  \<^verbatim>\<open>__proto__\<close> sets the prototype and creates no own property; any other key is
  created, or overwritten in place.
\<close>

definition store_set :: "string \<Rightarrow> store_entry \<Rightarrow> store \<Rightarrow> store" where
  "store_set k v st = (if k = ''__proto__'' then st else AList.update k v st)"

definition document_of :: "entry \<Rightarrow> document" where
  "document_of entry =
     \<lparr>d_id = slug entry, d_title = title entry, d_description = description_of entry,
      d_content = textContent entry\<rparr>"

definition store_entry_of :: "entry \<Rightarrow> store_entry" where
  "store_entry_of entry =
     \<lparr>s_title = title entry, s_description = description_of entry,
      s_url = ''/'' @ collection entry @ ''/'' @ slug entry\<rparr>"

definition search_loop :: "entry list \<Rightarrow> document list \<times> store" where
  "search_loop allContent =
     fold (\<lambda>entry (documents, st).
             (documents @ [document_of entry],
              store_set (slug entry) (store_entry_of entry) st))
          allContent ([], [])"

text \<open>
  The index configuration of the script: the reference field \<^verbatim>\<open>id\<close>, and the fields
  \<^verbatim>\<open>title\<close> with boost 10, \<^verbatim>\<open>description\<close> and \<^verbatim>\<open>content\<close> with no boost
  given (the library's default, 1).
\<close>

definition lunr_fields :: "(string \<times> nat) list" where
  "lunr_fields = [(''title'', 10), (''description'', 1), (''content'', 1)]"

text \<open>
  The parameter \<open>lunr\<close> stands for the library call
  \<^verbatim>\<open>lunr(function () {...}).toJSON()\<close>, given the reference field, the fields and the
  documents added.
\<close>

definition generateSearchIndex ::
  "(string \<Rightarrow> (string \<times> nat) list \<Rightarrow> document list \<Rightarrow> 'i) \<Rightarrow> entry list
     \<Rightarrow> 'i world \<Rightarrow> 'i world" where
  "generateSearchIndex lunr allContent w =
     (case search_loop allContent of
        (documents, st) \<Rightarrow>
          \<lparr>console = console w @ [Log ''Generating search index...'',
                                    Log ''Search index generated successfully!''],
           files = (files w)(''src/data/search-index.json'' \<mapsto>
                      SearchJson (lunr ''id'' lunr_fields documents) st)\<rparr>)"

section \<open>The build\<close>

text \<open>
  The build runs the three scripts in the order of the \<^verbatim>\<open>package.json\<close> scripts,
  chained with \<^verbatim>\<open>&&\<close>: backlinks, search index, graph data. A script that throws ends
  the build before it has written its file.
\<close>

definition build ::
  "(string \<Rightarrow> (string \<times> nat) list \<Rightarrow> document list \<Rightarrow> 'i) \<Rightarrow> entry list
     \<Rightarrow> 'i world \<Rightarrow> error + 'i world" where
  "build lunr allContent w =
     (case generateBacklinks allContent w of
        Inl e \<Rightarrow> Inl e
      | Inr w1 \<Rightarrow>
          Inr (generateGraphData allContent (generateSearchIndex lunr allContent w1)))"

section \<open>Views used by the properties\<close>

text \<open>
  The values \<^verbatim>\<open>linkedTitle\<close> takes over the iterations of a scan loop, in order.
\<close>

function linkedTitles :: "string \<Rightarrow> string list" where
  "linkedTitles text =
     (case regex_exec text of
        None \<Rightarrow> []
      | Some (linkedTitle, rest) \<Rightarrow> linkedTitle # linkedTitles rest)"
  by pat_completeness auto
termination
  by (relation "measure length") (auto dest: regex_exec_shorter)

text \<open>
  \<open>resolve m t\<close> is the identifier a reference with raw text \<open>t\<close> resolves to: the
  value of \<^verbatim>\<open>targetSlug\<close> when it passes \<^verbatim>\<open>if (targetSlug)\<close>. \<open>targets m text\<close>
  are the resolved references of a text, in order and with repetitions.
\<close>

definition resolve :: "(string \<rightharpoonup> string) \<Rightarrow> string \<Rightarrow> string option" where
  "resolve m t =
     (case m (toLowerCase t) of
        Some s \<Rightarrow> if s \<noteq> [] then Some s else None
      | None \<Rightarrow> None)"

definition targets :: "(string \<rightharpoonup> string) \<Rightarrow> string \<Rightarrow> string list" where
  "targets m text = List.map_filter (resolve m) (linkedTitles text)"

definition link :: "string \<Rightarrow> string \<Rightarrow> edge" where
  "link a b = \<lparr>e_from = a, e_to = b, e_arrows = ''to''\<rparr>"

text \<open>All references of the corpus: source identifier and raw target text.\<close>

definition references :: "entry list \<Rightarrow> (string \<times> string) list" where
  "references allContent =
     concat (map (\<lambda>entry. map (\<lambda>t. (slug entry, t)) (linkedTitles (textContent entry)))
               allContent)"

text \<open>
  The backlink array of a target, as \<^verbatim>\<open>Backlinks.astro\<close> reads it:
  \<^verbatim>\<open>backlinksData[currentSlug] || []\<close>.
\<close>

definition incomingLinks :: "backlinks \<Rightarrow> string \<Rightarrow> string list" where
  "incomingLinks bl currentSlug =
     (case map_of bl currentSlug of Some sources \<Rightarrow> sources | None \<Rightarrow> [])"

text \<open>The edges of a graph as pairs (from, to), as a list and as a set.\<close>

definition edge_pairs :: "graph \<Rightarrow> (string \<times> string) list" where
  "edge_pairs g = map (\<lambda>e. (e_from e, e_to e)) (edges g)"

definition edge_set :: "graph \<Rightarrow> (string \<times> string) set" where
  "edge_set g = set (edge_pairs g)"

definition node_ids :: "graph \<Rightarrow> string list" where
  "node_ids g = map n_id (nodes g)"

text \<open>The lines printed with \<^verbatim>\<open>console.warn\<close>.\<close>

definition warnings :: "console_line list \<Rightarrow> console_line list" where
  "warnings out = filter (\<lambda>l. case l of Warn x \<Rightarrow> True | Log x \<Rightarrow> False) out"

text \<open>
  The corpus of the end-to-end example: a note titled Apple that refers to Banana, and a
  note titled Banana with no links; and a world with nothing printed and no file.
\<close>

definition a_note :: "string \<Rightarrow> string \<Rightarrow> string \<Rightarrow> entry" where
  "a_note s t body =
     \<lparr>slug = s, collection = ''notes'', title = t, description = None, summary = None,
      textContent = body\<rparr>"

definition apple :: entry where
  "apple = a_note ''a'' ''Apple'' ''see [[Banana]]''"

definition banana :: entry where
  "banana = a_note ''b'' ''Banana'' ''no links''"

definition fresh :: "(document list) world" where
  "fresh = \<lparr>console = [], files = Map.empty\<rparr>"

text \<open>
  In the examples the library call is replaced by a function that returns the documents it
  was given.
\<close>

definition documents_only ::
  "string \<Rightarrow> (string \<times> nat) list \<Rightarrow> document list \<Rightarrow> document list" where
  "documents_only r fs ds = ds"


definition upper :: entry where
  "upper = a_note ''a'' ''Foo'' ''first''"

definition lower :: entry where
  "lower = a_note ''b'' ''foo'' ''second''"

definition reader :: entry where
  "reader = a_note ''r'' ''Reader'' ''see [[Foo]]''"

definition spaced :: entry where
  "spaced = a_note ''s'' ''Foo Bar'' ''one space in the title''"

definition spacer :: entry where
  "spacer = a_note ''t'' ''Spacer'' ''see [[foo  bar]]''"

definition acorn :: entry where
  "acorn =
     \<lparr>slug = ''a'', collection = ''concepts'', title = ''Acorn'', description = None,
      summary = Some ''a seed'', textContent = ''grows near [[Banana]]''\<rparr>"

definition cherry :: entry where
  "cherry = a_note ''c'' ''Cherry'' ''[[Banana]], [[banana]] and [[BANANA]]''"

definition durian :: entry where
  "durian = a_note ''d'' ''Durian'' ''see [[Banana]] and [[Cherimoya]]''"

definition constructor_note :: entry where
  "constructor_note = a_note ''constructor'' ''Constructor'' ''how objects are made''"

definition seeker :: entry where
  "seeker = a_note ''s'' ''Seeker'' ''a [[nope]] b [[Constructor]] c''"

definition ghost :: entry where
  "ghost = a_note [] ''Ghost'' ''nobody home''"

definition haunted :: entry where
  "haunted = a_note ''h'' ''Haunted'' ''see [[Ghost]] and [[nope]]''"

declare backlinks_while.simps [simp del]
declare graph_while.simps [simp del]
declare linkedTitles.simps [simp del]

section \<open>Auxiliary facts: the title map\<close>

lemma titleToSlugMap_snoc:
  "titleToSlugMap (es @ [e]) = (titleToSlugMap es)(toLowerCase (title e) \<mapsto> slug e)"
  by (simp add: titleToSlugMap_def)

lemma titleToSlugMap_last:
  "titleToSlugMap allContent k =
     (let es = filter (\<lambda>e. toLowerCase (title e) = k) allContent
      in if es = [] then None else Some (slug (last es)))"
proof (induction allContent rule: rev_induct)
  case Nil
  show ?case by (simp add: titleToSlugMap_def)
next
  case (snoc e es)
  show ?case
  proof (cases "toLowerCase (title e) = k")
    case True
    then show ?thesis by (simp add: titleToSlugMap_snoc Let_def)
  next
    case False
    with snoc show ?thesis by (simp add: titleToSlugMap_snoc Let_def)
  qed
qed

lemma titleToSlugMap_Some:
  assumes "titleToSlugMap allContent k = Some s"
  shows "\<exists>e\<in>set allContent. toLowerCase (title e) = k \<and> slug e = s"
proof -
  let ?es = "filter (\<lambda>e. toLowerCase (title e) = k) allContent"
  from assms have ne: "?es \<noteq> []" and s: "s = slug (last ?es)"
    by (simp_all add: titleToSlugMap_last Let_def split: if_splits)
  from ne have "last ?es \<in> set ?es" by (rule last_in_set)
  with s show ?thesis by auto
qed

lemma first_pass_fold:
  "fold (\<lambda>entry (ns, m).
           (ns @ [node_of entry], m(toLowerCase (title entry) \<mapsto> slug entry)))
        es (ns0, m0)
   = (ns0 @ map node_of es,
      fold (\<lambda>entry m. m(toLowerCase (title entry) \<mapsto> slug entry)) es m0)"
  by (induction es arbitrary: ns0 m0) simp_all

lemma first_pass_eq:
  "first_pass allContent = (map node_of allContent, titleToSlugMap allContent)"
  by (simp add: first_pass_def titleToSlugMap_def first_pass_fold)

section \<open>Auxiliary facts: the scan loops\<close>

lemma targets_unfold:
  "targets m text =
     (case regex_exec text of
        None \<Rightarrow> []
      | Some (t, rest) \<Rightarrow>
          (case resolve m t of None \<Rightarrow> targets m rest | Some s \<Rightarrow> s # targets m rest))"
  by (subst targets_def, subst linkedTitles.simps)
     (simp add: targets_def List.map_filter_simps split: option.splits)

lemma graph_body_eq:
  "graph_body m a t es = es @ map (link a) (case resolve m t of None \<Rightarrow> [] | Some s \<Rightarrow> [s])"
  by (simp add: graph_body_def resolve_def link_def split: option.splits)

lemma graph_while_eq:
  "graph_while m a s es = es @ map (link a) (targets m s)"
proof (induction m a s es rule: graph_while.induct)
  case (1 m a s es)
  show ?case
  proof (cases "regex_exec s")
    case None
    then show ?thesis
      by (subst graph_while.simps, subst targets_unfold) simp
  next
    case (Some r)
    obtain t rest where r: "r = (t, rest)" by (cases r)
    from "1.IH" [OF Some r [symmetric]]
    have "graph_while m a rest (graph_body m a t es)
            = graph_body m a t es @ map (link a) (targets m rest)" .
    with Some r show ?thesis
      by (subst graph_while.simps, subst targets_unfold)
         (simp add: graph_body_eq split: option.splits)
  qed
qed

lemma second_pass_fold:
  "fold (\<lambda>entry es. graph_while m (slug entry) (textContent entry) es) xs acc
   = acc @ concat (map (\<lambda>entry. map (link (slug entry)) (targets m (textContent entry))) xs)"
  by (induction xs arbitrary: acc) (simp_all add: graph_while_eq)

lemma second_pass_eq:
  "second_pass m allContent
   = concat (map (\<lambda>entry. map (link (slug entry)) (targets m (textContent entry))) allContent)"
  by (simp add: second_pass_def second_pass_fold)

lemma graphData_eq:
  "graphData allContent =
     \<lparr>nodes = map node_of allContent,
      edges = concat (map (\<lambda>entry. map (link (slug entry))
                 (targets (titleToSlugMap allContent) (textContent entry))) allContent)\<rparr>"
  by (simp add: graphData_def first_pass_eq second_pass_eq)

section \<open>Auxiliary facts: the backlinks object\<close>

lemma incomingLinks_update:
  "incomingLinks (AList.update k v bl) b = (if b = k then v else incomingLinks bl b)"
  by (simp add: incomingLinks_def update_conv')

lemma add_backlink_Inr:
  assumes "add_backlink t a bl = Inr bl'"
  shows "incomingLinks bl' b =
           (if b = t \<and> a \<notin> set (incomingLinks bl t)
            then incomingLinks bl t @ [a] else incomingLinks bl b)"
proof (cases "map_of bl t")
  case None
  with assms have np: "t \<notin> set object_prototype_keys"
    by (auto simp: add_backlink_def get_property_def Let_def update_conv' split: if_splits)
  with None assms have "bl' = AList.update t [a] (AList.update t [] bl)"
    by (simp add: add_backlink_def get_property_def Let_def update_conv')
  with None show ?thesis
    by (simp add: incomingLinks_update) (simp add: incomingLinks_def)
next
  case (Some xs)
  with assms have "bl' = (if a \<in> set xs then bl else AList.update t (xs @ [a]) bl)"
    by (simp add: add_backlink_def get_property_def Let_def)
  with Some show ?thesis
    by (simp add: incomingLinks_update) (simp add: incomingLinks_def)
qed

lemma add_backlink_total:
  assumes "t \<notin> set object_prototype_keys"
  shows "\<exists>bl'. add_backlink t a bl = Inr bl'"
proof (cases "map_of bl t")
  case None
  with assms show ?thesis
    by (simp add: add_backlink_def get_property_def Let_def update_conv')
next
  case (Some xs)
  then show ?thesis
    by (simp add: add_backlink_def get_property_def Let_def)
qed

lemma backlinks_body_Inr:
  assumes "backlinks_body m a t (bl, out) = Inr (bl', out')"
  shows "incomingLinks bl' b =
           (case resolve m t of
              None \<Rightarrow> incomingLinks bl b
            | Some s \<Rightarrow> if b = s \<and> a \<notin> set (incomingLinks bl s)
                        then incomingLinks bl s @ [a] else incomingLinks bl b)"
    and "out' = out @ (case resolve m t of None \<Rightarrow> [unresolved_warning t a] | Some s \<Rightarrow> [])"
proof -
  show "incomingLinks bl' b =
           (case resolve m t of
              None \<Rightarrow> incomingLinks bl b
            | Some s \<Rightarrow> if b = s \<and> a \<notin> set (incomingLinks bl s)
                        then incomingLinks bl s @ [a] else incomingLinks bl b)"
  proof (cases "resolve m t")
    case None
    with assms have "bl' = bl"
      by (auto simp: backlinks_body_def resolve_def split: option.splits if_splits)
    with None show ?thesis by simp
  next
    case (Some s)
    with assms have "add_backlink s a bl = Inr bl'"
      by (auto simp: backlinks_body_def resolve_def split: option.splits if_splits sum.splits)
    from add_backlink_Inr [OF this] Some show ?thesis by simp
  qed
  show "out' = out @ (case resolve m t of None \<Rightarrow> [unresolved_warning t a] | Some s \<Rightarrow> [])"
    using assms
    by (auto simp: backlinks_body_def resolve_def split: option.splits if_splits sum.splits)
qed

lemma backlinks_body_set:
  assumes "backlinks_body m a t (bl, out) = Inr (bl', out')"
  shows "set (incomingLinks bl' b) =
           set (incomingLinks bl b) \<union> (if resolve m t = Some b then {a} else {})"
  using backlinks_body_Inr(1) [OF assms, of b]
  by (auto split: option.splits if_splits)

lemma backlinks_body_distinct:
  assumes "backlinks_body m a t (bl, out) = Inr (bl', out')"
    and "distinct (incomingLinks bl b)"
  shows "distinct (incomingLinks bl' b)"
  using backlinks_body_Inr(1) [OF assms(1), of b] assms(2)
  by (auto split: option.splits if_splits)

lemma backlinks_body_total:
  assumes "\<forall>s. resolve m t = Some s \<longrightarrow> s \<notin> set object_prototype_keys"
  shows "\<exists>st'. backlinks_body m a t st = Inr st'"
proof (cases "resolve m t")
  case None
  then show ?thesis
    by (cases st) (auto simp: backlinks_body_def resolve_def split: option.splits if_splits)
next
  case (Some s)
  with assms have "s \<notin> set object_prototype_keys" by simp
  obtain bl out where st: "st = (bl, out)" by (cases st)
  from add_backlink_total [OF \<open>s \<notin> set object_prototype_keys\<close>]
  obtain bl' where ab: "add_backlink s a bl = Inr bl'" by blast
  from Some have "m (toLowerCase t) = Some s" and "s \<noteq> []"
    by (auto simp: resolve_def split: option.splits if_splits)
  with ab st show ?thesis
    by (simp add: backlinks_body_def)
qed

lemma linkedTitles_unfold:
  "linkedTitles s =
     (case regex_exec s of None \<Rightarrow> [] | Some (t, rest) \<Rightarrow> t # linkedTitles rest)"
  by (subst linkedTitles.simps) simp

lemma backlinks_while_Inr:
  "backlinks_while m a s (bl, out) = Inr (bl', out') \<Longrightarrow>
     set (incomingLinks bl' b) =
       set (incomingLinks bl b) \<union> (if b \<in> set (targets m s) then {a} else {})
     \<and> (distinct (incomingLinks bl b) \<longrightarrow> distinct (incomingLinks bl' b))
     \<and> out' = out @ map (\<lambda>t. unresolved_warning t a)
                      (filter (\<lambda>t. resolve m t = None) (linkedTitles s))"
proof (induction m a s "(bl, out)" arbitrary: bl out rule: backlinks_while.induct)
  case (1 m a s)
  show ?case
  proof (cases "regex_exec s")
    case None
    with "1.prems" show ?thesis
      by (subst targets_unfold, subst linkedTitles_unfold)
         (simp add: backlinks_while.simps)
  next
    case (Some r)
    obtain t rest where r: "r = (t, rest)" by (cases r)
    from "1.prems" Some r obtain bl1 out1
      where body: "backlinks_body m a t (bl, out) = Inr (bl1, out1)"
        and rec: "backlinks_while m a rest (bl1, out1) = Inr (bl', out')"
      by (subst (asm) backlinks_while.simps) (auto split: sum.splits)
    note ih = "1.hyps" [OF Some r [symmetric] body rec]
    note s1 = backlinks_body_set [OF body, of b]
    note d1 = backlinks_body_distinct [OF body, of b]
    note o1 = backlinks_body_Inr(2) [OF body]
    from Some r have tg: "targets m s =
        (case resolve m t of None \<Rightarrow> targets m rest | Some x \<Rightarrow> x # targets m rest)"
      by (subst targets_unfold) simp
    from Some r have lt: "linkedTitles s = t # linkedTitles rest"
      by (subst linkedTitles_unfold) simp
    from ih s1 have "set (incomingLinks bl' b) =
       set (incomingLinks bl b) \<union> (if b \<in> set (targets m s) then {a} else {})"
      by (auto simp: tg split: option.splits if_splits)
    moreover from ih d1 have "distinct (incomingLinks bl b) \<longrightarrow> distinct (incomingLinks bl' b)"
      by blast
    moreover from ih o1 have "out' = out @ map (\<lambda>t. unresolved_warning t a)
                      (filter (\<lambda>t. resolve m t = None) (linkedTitles s))"
      by (auto simp: lt split: option.splits)
    ultimately show ?thesis by blast
  qed
qed

lemma backlinks_while_total:
  "\<forall>x\<in>set (targets m s). x \<notin> set object_prototype_keys \<Longrightarrow>
     \<exists>st'. backlinks_while m a s st = Inr st'"
proof (induction m a s st rule: backlinks_while.induct)
  case (1 m a s st)
  show ?case
  proof (cases "regex_exec s")
    case None
    then show ?thesis by (simp add: backlinks_while.simps)
  next
    case (Some r)
    obtain t rest where r: "r = (t, rest)" by (cases r)
    from Some r have tg: "targets m s =
        (case resolve m t of None \<Rightarrow> targets m rest | Some x \<Rightarrow> x # targets m rest)"
      by (subst targets_unfold) simp
    from "1.prems" tg have "\<forall>x. resolve m t = Some x \<longrightarrow> x \<notin> set object_prototype_keys"
      by (auto split: option.splits)
    from backlinks_body_total [OF this]
    obtain st1 where body: "backlinks_body m a t st = Inr st1" by blast
    from "1.prems" tg have "\<forall>x\<in>set (targets m rest). x \<notin> set object_prototype_keys"
      by (auto split: option.splits)
    from "1.IH" [OF Some r [symmetric] body this]
    obtain st' where "backlinks_while m a rest st1 = Inr st'" by blast
    with Some r body show ?thesis
      by (subst backlinks_while.simps) simp
  qed
qed

lemma in_map_filter:
  "y \<in> set (List.map_filter f xs) \<longleftrightarrow> (\<exists>x\<in>set xs. f x = Some y)"
  by (induction xs) (auto split: option.splits)

lemma references_Cons:
  "references (e # es) =
     map (\<lambda>t. (slug e, t)) (linkedTitles (textContent e)) @ references es"
  by (simp add: references_def)

lemma backlinks_for_Inr:
  "backlinks_for m es (bl, out) = Inr (bl', out') \<Longrightarrow>
     set (incomingLinks bl' b) =
       set (incomingLinks bl b) \<union> {slug e | e. e \<in> set es \<and> b \<in> set (targets m (textContent e))}
     \<and> (distinct (incomingLinks bl b) \<longrightarrow> distinct (incomingLinks bl' b))
     \<and> out' = out @ map (\<lambda>(a, t). unresolved_warning t a)
                      (filter (\<lambda>(a, t). resolve m t = None) (references es))"
proof (induction es arbitrary: bl out)
  case Nil
  then show ?case by (simp add: references_def)
next
  case (Cons e es)
  from Cons.prems obtain bl1 out1
    where w: "backlinks_while m (slug e) (textContent e) (bl, out) = Inr (bl1, out1)"
      and f: "backlinks_for m es (bl1, out1) = Inr (bl', out')"
    by (auto split: sum.splits)
  note h1 = backlinks_while_Inr [OF w, of b]
  note h2 = Cons.IH [OF f]
  from h1 h2 have "set (incomingLinks bl' b) =
       set (incomingLinks bl b) \<union>
       {slug x | x. x \<in> set (e # es) \<and> b \<in> set (targets m (textContent x))}"
    by auto
  moreover from h1 h2
  have "distinct (incomingLinks bl b) \<longrightarrow> distinct (incomingLinks bl' b)" by blast
  moreover from h1 h2
  have "out' = out @ map (\<lambda>(a, t). unresolved_warning t a)
                      (filter (\<lambda>(a, t). resolve m t = None) (references (e # es)))"
    by (simp add: references_Cons filter_map comp_def)
  ultimately show ?case by blast
qed

lemma backlinks_for_total:
  "\<forall>e\<in>set es. \<forall>x\<in>set (targets m (textContent e)). x \<notin> set object_prototype_keys \<Longrightarrow>
     \<exists>st'. backlinks_for m es st = Inr st'"
proof (induction es arbitrary: st)
  case Nil
  show ?case by simp
next
  case (Cons e es)
  from Cons.prems
  have "\<forall>x\<in>set (targets m (textContent e)). x \<notin> set object_prototype_keys" by simp
  from backlinks_while_total [OF this]
  obtain st1 where w: "backlinks_while m (slug e) (textContent e) st = Inr st1" by blast
  from Cons.prems
  have "\<forall>e\<in>set es. \<forall>x\<in>set (targets m (textContent e)). x \<notin> set object_prototype_keys"
    by simp
  from Cons.IH [OF this] obtain st' where "backlinks_for m es st1 = Inr st'" by blast
  with w show ?case by simp
qed

lemma targets_are_slugs:
  assumes "b \<in> set (targets (titleToSlugMap allContent) s)"
  shows "\<exists>t\<in>set (linkedTitles s). \<exists>d\<in>set allContent.
           toLowerCase (title d) = toLowerCase t \<and> slug d = b \<and> b \<noteq> []
           \<and> titleToSlugMap allContent (toLowerCase t) = Some b"
proof -
  from assms obtain t where t: "t \<in> set (linkedTitles s)"
    and r: "resolve (titleToSlugMap allContent) t = Some b"
    by (auto simp: targets_def in_map_filter)
  from r have m: "titleToSlugMap allContent (toLowerCase t) = Some b" and ne: "b \<noteq> []"
    by (auto simp: resolve_def split: option.splits if_splits)
  from titleToSlugMap_Some [OF m] t m ne show ?thesis by blast
qed

lemma generateBacklinks_Inr:
  assumes "generateBacklinks allContent w = Inr w'"
  shows "\<exists>bl. files w' = (files w)(''src/data/backlinks.json'' \<mapsto> BacklinksJson bl)
           \<and> (\<forall>b. set (incomingLinks bl b) =
                 {slug e | e. e \<in> set allContent
                    \<and> b \<in> set (targets (titleToSlugMap allContent) (textContent e))}
               \<and> distinct (incomingLinks bl b))
           \<and> console w' = console w @ [Log ''Generating backlinks...'']
               @ map (\<lambda>(a, t). unresolved_warning t a)
                   (filter (\<lambda>(a, t). resolve (titleToSlugMap allContent) t = None)
                      (references allContent))
               @ [Log ''Backlinks generated successfully!'']"
proof -
  from assms obtain bl out
    where f: "backlinks_for (titleToSlugMap allContent) allContent
                ([], console w @ [Log ''Generating backlinks...'']) = Inr (bl, out)"
      and w': "w' = \<lparr>console = out @ [Log ''Backlinks generated successfully!''],
                     files = (files w)(''src/data/backlinks.json'' \<mapsto> BacklinksJson bl)\<rparr>"
    by (auto simp: generateBacklinks_def split: sum.splits)
  have "\<forall>b. set (incomingLinks bl b) =
                 {slug e | e. e \<in> set allContent
                    \<and> b \<in> set (targets (titleToSlugMap allContent) (textContent e))}
               \<and> distinct (incomingLinks bl b)"
  proof
    fix b
    from backlinks_for_Inr [OF f, of b]
    show "set (incomingLinks bl b) =
                 {slug e | e. e \<in> set allContent
                    \<and> b \<in> set (targets (titleToSlugMap allContent) (textContent e))}
               \<and> distinct (incomingLinks bl b)"
      by (simp add: incomingLinks_def)
  qed
  moreover from backlinks_for_Inr [OF f, of "[]"]
  have "out = console w @ [Log ''Generating backlinks...'']
               @ map (\<lambda>(a, t). unresolved_warning t a)
                   (filter (\<lambda>(a, t). resolve (titleToSlugMap allContent) t = None)
                      (references allContent))"
    by simp
  ultimately show ?thesis using w' by (intro exI [of _ bl]) simp
qed

lemma generateBacklinks_total:
  assumes "\<forall>e\<in>set allContent. slug e \<notin> set object_prototype_keys"
  shows "\<exists>w'. generateBacklinks allContent w = Inr w'"
proof -
  have "\<forall>e\<in>set allContent. \<forall>x\<in>set (targets (titleToSlugMap allContent) (textContent e)).
          x \<notin> set object_prototype_keys"
  proof (intro ballI)
    fix e x
    assume "x \<in> set (targets (titleToSlugMap allContent) (textContent e))"
    from targets_are_slugs [OF this] obtain d where "d \<in> set allContent" "slug d = x"
      by blast
    with assms show "x \<notin> set object_prototype_keys" by blast
  qed
  from backlinks_for_total [OF this]
  obtain st' where "backlinks_for (titleToSlugMap allContent) allContent
                ([], console w @ [Log ''Generating backlinks...'']) = Inr st'" by blast
  then show ?thesis
    by (cases st') (simp add: generateBacklinks_def)
qed

lemma edges_graphData:
  "link a b \<in> set (edges (graphData allContent)) \<longleftrightarrow>
     (\<exists>e\<in>set allContent. slug e = a
        \<and> b \<in> set (targets (titleToSlugMap allContent) (textContent e)))"
  by (auto simp: graphData_eq link_def)

section \<open>Auxiliary facts: the graph and the build\<close>

lemma edge_pairs_graphData:
  "edge_pairs (graphData allContent) =
     concat (map (\<lambda>e. map (Pair (slug e))
                 (targets (titleToSlugMap allContent) (textContent e))) allContent)"
  by (simp add: edge_pairs_def graphData_eq map_concat comp_def link_def)

lemma edge_set_graphData:
  "(a, b) \<in> edge_set (graphData allContent) \<longleftrightarrow>
     (\<exists>e\<in>set allContent. slug e = a
        \<and> b \<in> set (targets (titleToSlugMap allContent) (textContent e)))"
  by (auto simp: edge_set_def edge_pairs_graphData)

lemma node_ids_graphData: "node_ids (graphData allContent) = map slug allContent"
  by (simp add: node_ids_def graphData_eq node_of_def comp_def)

lemma references_Nil: "references [] = []"
  by (simp add: references_def)

lemma length_targets:
  "length (targets m s) = length (filter (\<lambda>t. resolve m t \<noteq> None) (linkedTitles s))"
  by (simp add: targets_def List.map_filter_def)

lemma length_edges_graphData:
  "length (edges (graphData allContent)) =
     length (filter (\<lambda>(a, t). resolve (titleToSlugMap allContent) t \<noteq> None)
               (references allContent))"
proof -
  have "length (concat (map (\<lambda>e. map (link (slug e)) (targets m (textContent e))) es))
        = length (filter (\<lambda>(a, t). resolve m t \<noteq> None) (references es))" for m es
    by (induction es) (simp_all add: references_Nil references_Cons length_targets filter_map comp_def)
  then show ?thesis by (simp add: graphData_eq)
qed

lemma build_Inr:
  assumes "build lunr allContent w = Inr w'"
  obtains w1 where "generateBacklinks allContent w = Inr w1"
    and "w' = generateGraphData allContent (generateSearchIndex lunr allContent w1)"
  using assms by (auto simp: build_def split: sum.splits)

lemma files_generateGraphData:
  "files (generateGraphData allContent w) =
     (files w)(''src/data/graph-data.json'' \<mapsto> GraphJson (graphData allContent))"
  by (simp add: generateGraphData_def)

lemma files_generateSearchIndex:
  "files (generateSearchIndex lunr allContent w) =
     (files w)(''src/data/search-index.json'' \<mapsto>
        SearchJson (lunr ''id'' lunr_fields (fst (search_loop allContent)))
                   (snd (search_loop allContent)))"
  by (simp add: generateSearchIndex_def split: prod.splits)

lemma console_generateGraphData:
  "console (generateGraphData allContent w) =
     console w @ [Log ''Generating graph data...'', Log ''Graph data generated successfully!'']"
  by (simp add: generateGraphData_def)

lemma console_generateSearchIndex:
  "console (generateSearchIndex lunr allContent w) =
     console w @ [Log ''Generating search index...'',
                  Log ''Search index generated successfully!'']"
  by (simp add: generateSearchIndex_def split: prod.splits)

lemma build_total:
  assumes "\<forall>e\<in>set allContent. slug e \<notin> set object_prototype_keys"
  shows "\<exists>w'. build lunr allContent w = Inr w'"
  using generateBacklinks_total [OF assms, of w] by (auto simp: build_def)

lemma build_files:
  assumes "build lunr allContent w = Inr w'"
  shows "\<exists>bl. files w' ''src/data/backlinks.json'' = Some (BacklinksJson bl)
           \<and> files w' ''src/data/graph-data.json'' = Some (GraphJson (graphData allContent))
           \<and> (\<forall>b. set (incomingLinks bl b) =
                 {slug e | e. e \<in> set allContent
                    \<and> b \<in> set (targets (titleToSlugMap allContent) (textContent e))}
               \<and> distinct (incomingLinks bl b))"
proof -
  from assms obtain w1 where g: "generateBacklinks allContent w = Inr w1"
    and w': "w' = generateGraphData allContent (generateSearchIndex lunr allContent w1)"
    by (rule build_Inr)
  from generateBacklinks_Inr [OF g] obtain bl
    where f: "files w1 = (files w)(''src/data/backlinks.json'' \<mapsto> BacklinksJson bl)"
      and s: "\<forall>b. set (incomingLinks bl b) =
                 {slug e | e. e \<in> set allContent
                    \<and> b \<in> set (targets (titleToSlugMap allContent) (textContent e))}
               \<and> distinct (incomingLinks bl b)"
    by blast
  from f w' have "files w' ''src/data/backlinks.json'' = Some (BacklinksJson bl)"
    by (simp add: files_generateGraphData files_generateSearchIndex)
  moreover from w' have "files w' ''src/data/graph-data.json'' = Some (GraphJson (graphData allContent))"
    by (simp add: files_generateGraphData)
  ultimately show ?thesis using s by blast
qed

section \<open>Auxiliary facts: counting\<close>

lemma count_list_concat:
  "count_list (concat xss) x = sum_list (map (\<lambda>xs. count_list xs x) xss)"
  by (induction xss) simp_all

lemma count_list_Pair:
  "count_list (map (Pair a) xs) (a', b) = (if a = a' then count_list xs b else 0)"
  by (induction xs) auto

lemma sum_list_other_slugs:
  "\<forall>e\<in>set es. slug e \<noteq> a \<Longrightarrow>
     sum_list (map (\<lambda>e. if slug e = a then f e else (0::nat)) es) = 0"
  by (induction es) simp_all

lemma sum_list_one_slug:
  "distinct (map slug es) \<Longrightarrow> d \<in> set es \<Longrightarrow>
     sum_list (map (\<lambda>e. if slug e = slug d then f e else (0::nat)) es) = f d"
proof (induction es)
  case Nil
  then show ?case by simp
next
  case (Cons e es)
  show ?case
  proof (cases "e = d")
    case True
    from Cons.prems(1) have "slug e \<notin> slug ` set es" by simp
    with True have "\<forall>x\<in>set es. slug x \<noteq> slug d" by (metis imageI)
    from sum_list_other_slugs [OF this] True show ?thesis by simp
  next
    case False
    with Cons.prems have d: "d \<in> set es" and "slug e \<noteq> slug d" by auto
    with Cons show ?thesis by simp
  qed
qed

lemma count_edge_pairs:
  assumes "distinct (map slug allContent)" and "d \<in> set allContent"
  shows "count_list (edge_pairs (graphData allContent)) (slug d, b) =
           count_list (targets (titleToSlugMap allContent) (textContent d)) b"
proof -
  have "count_list (edge_pairs (graphData allContent)) (slug d, b) =
          sum_list (map (\<lambda>e. if slug e = slug d
                              then count_list (targets (titleToSlugMap allContent) (textContent e)) b
                              else 0) allContent)"
    by (simp add: edge_pairs_graphData count_list_concat comp_def count_list_Pair)
  also have "\<dots> = count_list (targets (titleToSlugMap allContent) (textContent d)) b"
    using assms by (rule sum_list_one_slug)
  finally show ?thesis .
qed

lemma count_list_distinct:
  "distinct xs \<Longrightarrow> x \<in> set xs \<Longrightarrow> count_list xs x = 1"
  by (induction xs) (auto simp: count_list_0_iff)

section \<open>Auxiliary facts: warnings\<close>

lemma warnings_append: "warnings (xs @ ys) = warnings xs @ warnings ys"
  by (simp add: warnings_def)

lemma warnings_simps:
  "warnings [] = []"
  "warnings (Log x # xs) = warnings xs"
  "warnings (Warn x # xs) = Warn x # warnings xs"
  by (simp_all add: warnings_def)

lemma warnings_unresolved:
  "warnings (map (\<lambda>(a, t). unresolved_warning t a) rs) = map (\<lambda>(a, t). unresolved_warning t a) rs"
  by (induction rs) (auto simp: warnings_simps unresolved_warning_def)

lemma build_warnings:
  assumes "build lunr allContent w = Inr w'"
  shows "warnings (console w') =
           warnings (console w) @
           map (\<lambda>(a, t). unresolved_warning t a)
               (filter (\<lambda>(a, t). resolve (titleToSlugMap allContent) t = None)
                  (references allContent))"
proof -
  from assms obtain w1 where g: "generateBacklinks allContent w = Inr w1"
    and w': "w' = generateGraphData allContent (generateSearchIndex lunr allContent w1)"
    by (rule build_Inr)
  from generateBacklinks_Inr [OF g]
  have "console w1 = console w @ [Log ''Generating backlinks...'']
               @ map (\<lambda>(a, t). unresolved_warning t a)
                   (filter (\<lambda>(a, t). resolve (titleToSlugMap allContent) t = None)
                      (references allContent))
               @ [Log ''Backlinks generated successfully!'']"
    by blast
  then have "warnings (console w1) = warnings (console w) @
           map (\<lambda>(a, t). unresolved_warning t a)
               (filter (\<lambda>(a, t). resolve (titleToSlugMap allContent) t = None)
                  (references allContent))"
    by (simp add: warnings_append warnings_unresolved warnings_simps)
  with w' show ?thesis
    by (simp add: console_generateGraphData console_generateSearchIndex warnings_append
          warnings_simps)
qed

lemma resolve_None_iff:
  assumes "\<forall>e\<in>set allContent. slug e \<noteq> []"
  shows "resolve (titleToSlugMap allContent) t = None \<longleftrightarrow>
           titleToSlugMap allContent (toLowerCase t) = None"
proof (cases "titleToSlugMap allContent (toLowerCase t)")
  case None
  then show ?thesis by (simp add: resolve_def)
next
  case (Some s)
  from titleToSlugMap_Some [OF Some] assms have "s \<noteq> []" by auto
  with Some show ?thesis by (simp add: resolve_def)
qed

lemma references_sources:
  "(a, t) \<in> set (references allContent) \<Longrightarrow> a \<in> set (map slug allContent)"
  by (auto simp: references_def)

section \<open>Auxiliary facts: the console does not influence the backlinks\<close>

lemma backlinks_body_console:
  assumes "backlinks_body m a t (bl, out1) = Inr (bl', o1)"
  shows "\<exists>o2. backlinks_body m a t (bl, out2) = Inr (bl', o2)"
  using assms
  by (auto simp: backlinks_body_def split: option.splits if_splits sum.splits)

lemma backlinks_while_console:
  "backlinks_while m a s (bl, out1) = Inr (bl', o1) \<Longrightarrow>
     \<exists>o2. backlinks_while m a s (bl, out2) = Inr (bl', o2)"
proof (induction m a s "(bl, out1)" arbitrary: bl out1 out2 rule: backlinks_while.induct)
  case (1 m a s)
  show ?case
  proof (cases "regex_exec s")
    case None
    with "1.prems" show ?thesis by (simp add: backlinks_while.simps)
  next
    case (Some r)
    obtain t rest where r: "r = (t, rest)" by (cases r)
    from "1.prems" Some r obtain bl1 out1'
      where body: "backlinks_body m a t (bl, out1) = Inr (bl1, out1')"
        and rec: "backlinks_while m a rest (bl1, out1') = Inr (bl', o1)"
      by (subst (asm) backlinks_while.simps) (auto split: sum.splits)
    from backlinks_body_console [OF body] obtain out2'
      where body2: "backlinks_body m a t (bl, out2) = Inr (bl1, out2')" by blast
    from "1.hyps" [OF Some r [symmetric] body rec, of out2'] obtain o2
      where "backlinks_while m a rest (bl1, out2') = Inr (bl', o2)" by blast
    with Some r body2 show ?thesis
      by (subst backlinks_while.simps) simp
  qed
qed

lemma backlinks_for_console:
  "backlinks_for m es (bl, out1) = Inr (bl', o1) \<Longrightarrow>
     \<exists>o2. backlinks_for m es (bl, out2) = Inr (bl', o2)"
proof (induction es arbitrary: bl out1 out2)
  case Nil
  then show ?case by simp
next
  case (Cons e es)
  from Cons.prems obtain bl1 out1'
    where w: "backlinks_while m (slug e) (textContent e) (bl, out1) = Inr (bl1, out1')"
      and f: "backlinks_for m es (bl1, out1') = Inr (bl', o1)"
    by (auto split: sum.splits)
  from backlinks_while_console [OF w] obtain out2'
    where w2: "backlinks_while m (slug e) (textContent e) (bl, out2) = Inr (bl1, out2')"
    by blast
  from Cons.IH [OF f, of out2'] obtain o2
    where "backlinks_for m es (bl1, out2') = Inr (bl', o2)" by blast
  with w2 show ?case by simp
qed

lemma generateBacklinks_world:
  assumes "generateBacklinks allContent w = Inr (w1 :: 'i world)"
  shows "\<exists>bl. files w1 = (files w)(''src/data/backlinks.json'' \<mapsto> BacklinksJson bl)
           \<and> (\<forall>v :: 'i world. \<exists>v1. generateBacklinks allContent v = Inr v1
                 \<and> files v1 = (files v)(''src/data/backlinks.json'' \<mapsto> BacklinksJson bl))"
proof -
  from assms obtain bl out
    where f: "backlinks_for (titleToSlugMap allContent) allContent
                ([], console w @ [Log ''Generating backlinks...'']) = Inr (bl, out)"
      and w1: "files w1 = (files w)(''src/data/backlinks.json'' \<mapsto> BacklinksJson bl)"
    by (auto simp: generateBacklinks_def split: sum.splits)
  have "\<exists>v1. generateBacklinks allContent v = Inr v1
          \<and> files v1 = (files v)(''src/data/backlinks.json'' \<mapsto> BacklinksJson bl)"
    for v :: "'i world"
  proof -
    from backlinks_for_console [OF f, of "console v @ [Log ''Generating backlinks...'']"]
    obtain o2 where "backlinks_for (titleToSlugMap allContent) allContent
                ([], console v @ [Log ''Generating backlinks...'']) = Inr (bl, o2)" by blast
    then show ?thesis by (simp add: generateBacklinks_def)
  qed
  with w1 show ?thesis by blast
qed

lemma build_world:
  assumes "build lunr allContent w = Inr (w1 :: 'i world)"
  shows "\<exists>bl. \<forall>v :: 'i world. \<exists>v1. build lunr allContent v = Inr v1
           \<and> files v1 = (files v)
               (''src/data/backlinks.json'' \<mapsto> BacklinksJson bl,
                ''src/data/search-index.json'' \<mapsto>
                   SearchJson (lunr ''id'' lunr_fields (fst (search_loop allContent)))
                              (snd (search_loop allContent)),
                ''src/data/graph-data.json'' \<mapsto> GraphJson (graphData allContent))"
proof -
  from assms obtain w0 where g: "generateBacklinks allContent w = Inr w0"
    by (rule build_Inr)
  from generateBacklinks_world [OF g] obtain bl
    where all: "\<forall>v :: 'i world. \<exists>v1. generateBacklinks allContent v = Inr v1
                 \<and> files v1 = (files v)(''src/data/backlinks.json'' \<mapsto> BacklinksJson bl)"
    by blast
  have "\<exists>v1. build lunr allContent v = Inr v1
           \<and> files v1 = (files v)
               (''src/data/backlinks.json'' \<mapsto> BacklinksJson bl,
                ''src/data/search-index.json'' \<mapsto>
                   SearchJson (lunr ''id'' lunr_fields (fst (search_loop allContent)))
                              (snd (search_loop allContent)),
                ''src/data/graph-data.json'' \<mapsto> GraphJson (graphData allContent))"
    for v :: "'i world"
  proof -
    from all obtain v0 where "generateBacklinks allContent v = Inr v0"
      and "files v0 = (files v)(''src/data/backlinks.json'' \<mapsto> BacklinksJson bl)"
      by blast
    then show ?thesis
      by (simp add: build_def files_generateGraphData files_generateSearchIndex)
  qed
  then show ?thesis by blast
qed

section \<open>Auxiliary facts: where the pattern matches\<close>





lemma search_loop_fold:
  "fold (\<lambda>entry (documents, st).
           (documents @ [document_of entry],
            store_set (slug entry) (store_entry_of entry) st)) es (ds, st0)
   = (ds @ map document_of es,
      fold (\<lambda>entry st. store_set (slug entry) (store_entry_of entry) st) es st0)"
  by (induction es arbitrary: ds st0) simp_all

lemma search_loop_documents: "fst (search_loop allContent) = map document_of allContent"
  by (simp add: search_loop_def search_loop_fold)

section \<open>Properties of the artifacts\<close>

text \<open>
  Two titles that differ in case only: Foo with identifier a, then foo with identifier b.
  A reference to Foo resolves to b, the later entry, although a is the smaller
  identifier.
\<close>

theorem title_collision_counterexample:
  "toLowerCase (title upper) = toLowerCase (title lower)
   \<and> slug upper = ''a'' \<and> slug lower = ''b'' \<and> (''a'' :: string) < ''b''
   \<and> titleToSlugMap [upper, lower, reader] (toLowerCase ''Foo'') = Some ''b''
   \<and> edge_pairs (graphData [upper, lower, reader]) = [(''r'', ''b'')]"
  by code_simp

text \<open>
  Claim C1, amended. When several documents have the same lower-cased title, title
  resolution prefers the one that comes last in the corpus order, on every build: the
  title map of both scripts sends a key to the identifier of the last entry whose
  lower-cased title is the key, and has no value for a key that is no entry's lower-cased
  title.
\<close>

theorem title_collision_last_wins:
  "titleToSlugMap allContent k =
     (let es = filter (\<lambda>e. toLowerCase (title e) = k) allContent
      in if es = [] then None else Some (slug (last es)))
   \<and> snd (first_pass allContent) = titleToSlugMap allContent"
  using titleToSlugMap_last [of allContent k] by (simp add: first_pass_eq)

theorem title_collision_last_wins_witness:
  "titleToSlugMap [upper, lower, reader] ''foo'' =
     (let es = filter (\<lambda>e. toLowerCase (title e) = ''foo'') [upper, lower, reader]
      in if es = [] then None else Some (slug (last es)))
   \<and> snd (first_pass [upper, lower, reader]) = titleToSlugMap [upper, lower, reader]"
  by (rule title_collision_last_wins)




text \<open>
  An unresolved link on a corpus with plain identifiers. When every identifier is
  non-empty and none is a name inherited from \<^verbatim>\<open>Object.prototype\<close>, and exactly one
  reference has a lower-cased text that is not a key of the title map, the build
  succeeds and prints exactly one warning, the line
  \<^verbatim>\<open>Warning: Unresolved internal link '[[text]]' in source\<close> with the raw text of that
  reference and the identifier of its source; the source is a node of the graph and every
  other reference has its edge.
\<close>

lemma unresolved_link_plain_identifiers:
  assumes "filter (\<lambda>(a, t). titleToSlugMap allContent (toLowerCase t) = None)
             (references allContent) = [(a0, t0)]"
    and "\<forall>e\<in>set allContent. slug e \<noteq> [] \<and> slug e \<notin> set object_prototype_keys"
  shows "\<exists>w'. build lunr allContent w = Inr w'
           \<and> warnings (console w') =
               warnings (console w) @
               [Warn (''Warning: Unresolved internal link '[['' @ t0 @ '']]' in '' @ a0)]
           \<and> files w' ''src/data/graph-data.json'' = Some (GraphJson (graphData allContent))
           \<and> a0 \<in> set (node_ids (graphData allContent))
           \<and> length (edges (graphData allContent)) + 1 = length (references allContent)"
proof -
  from assms(2) have ne: "\<forall>e\<in>set allContent. slug e \<noteq> []"
    and np: "\<forall>e\<in>set allContent. slug e \<notin> set object_prototype_keys" by auto
  from build_total [OF np] obtain w' where b: "build lunr allContent w = Inr w'" by blast
  have eq: "(\<lambda>(a, t). resolve (titleToSlugMap allContent) t = None)
            = (\<lambda>(a, t). titleToSlugMap allContent (toLowerCase t) = None)"
    by (simp add: resolve_None_iff [OF ne])
  from build_warnings [OF b] assms(1)
  have wn: "warnings (console w') =
              warnings (console w) @
              [Warn (''Warning: Unresolved internal link '[['' @ t0 @ '']]' in '' @ a0)]"
    by (simp add: eq unresolved_warning_def)
  from build_files [OF b]
  have gf: "files w' ''src/data/graph-data.json'' = Some (GraphJson (graphData allContent))"
    by blast
  have "(a0, t0) \<in> set (filter (\<lambda>(a, t). titleToSlugMap allContent (toLowerCase t) = None)
             (references allContent))"
    by (simp only: assms(1)) simp
  then have "(a0, t0) \<in> set (references allContent)" by simp
  from references_sources [OF this]
  have nd: "a0 \<in> set (node_ids (graphData allContent))"
    by (simp add: node_ids_graphData)
  have "length (references allContent) =
          length (filter (\<lambda>(a, t). resolve (titleToSlugMap allContent) t \<noteq> None)
                    (references allContent))
          + length (filter (\<lambda>(a, t). resolve (titleToSlugMap allContent) t = None)
                    (references allContent))"
    using sum_length_filter_compl [of "\<lambda>(a, t). resolve (titleToSlugMap allContent) t \<noteq> None"
                                      "references allContent"]
    by (simp add: case_prod_unfold)
  with assms(1) have ln: "length (edges (graphData allContent)) + 1 = length (references allContent)"
    by (simp add: length_edges_graphData eq)
  from b wn gf nd ln show ?thesis by blast
qed

lemma unresolved_link_plain_identifiers_example:
  "\<exists>w'. build documents_only [durian, banana] fresh = Inr w'
     \<and> warnings (console w') =
         [Warn ''Warning: Unresolved internal link '[[Cherimoya]]' in d'']
     \<and> files w' ''src/data/graph-data.json'' = Some (GraphJson (graphData [durian, banana]))
     \<and> ''d'' \<in> set (node_ids (graphData [durian, banana]))
     \<and> length (edges (graphData [durian, banana])) + 1 = length (references [durian, banana])"
proof -
  have h1: "filter (\<lambda>(a, t). titleToSlugMap [durian, banana] (toLowerCase t) = None)
              (references [durian, banana]) = [(''d'', ''Cherimoya'')]"
    by code_simp
  have h2: "\<forall>e\<in>set [durian, banana]. slug e \<noteq> [] \<and> slug e \<notin> set object_prototype_keys"
    by code_simp
  from unresolved_link_plain_identifiers [OF h1 h2, of documents_only fresh]
  show ?thesis by (simp add: fresh_def warnings_simps)
qed

text \<open>
  An empty identifier: the reference to Ghost is a key of the title map, with the empty
  identifier as value, and \<^verbatim>\<open>if (targetSlug)\<close> sends it to the warning branch. The
  corpus has one reference whose text is not in the title map, and the build prints two
  warnings.
\<close>

lemma unresolved_link_empty_identifier:
  "filter (\<lambda>(a, t). titleToSlugMap [ghost, haunted] (toLowerCase t) = None)
     (references [ghost, haunted]) = [(''h'', ''nope'')]
   \<and> (\<exists>w'. build documents_only [ghost, haunted] fresh = Inr w'
         \<and> warnings (console w') =
             [Warn ''Warning: Unresolved internal link '[[Ghost]]' in h'',
              Warn ''Warning: Unresolved internal link '[[nope]]' in h''])"
proof -
  have h1: "filter (\<lambda>(a, t). titleToSlugMap [ghost, haunted] (toLowerCase t) = None)
              (references [ghost, haunted]) = [(''h'', ''nope'')]"
    by code_simp
  have "\<forall>e\<in>set [ghost, haunted]. slug e \<notin> set object_prototype_keys" by code_simp
  from build_total [OF this] obtain w'
    where b: "build documents_only [ghost, haunted] fresh = Inr w'" by blast
  have f: "filter (\<lambda>(a, t). resolve (titleToSlugMap [ghost, haunted]) t = None)
             (references [ghost, haunted]) = [(''h'', ''Ghost''), (''h'', ''nope'')]"
    by code_simp
  from build_warnings [OF b]
  have "warnings (console w') =
          [Warn ''Warning: Unresolved internal link '[[Ghost]]' in h'',
           Warn ''Warning: Unresolved internal link '[[nope]]' in h'']"
    by (simp add: f fresh_def warnings_simps unresolved_warning_def)
  with h1 b show ?thesis by blast
qed

text \<open>
  Claim C3 (an unresolved link is not fatal): for every corpus with exactly one reference
  whose target title is not in the title map, the build completes, the edge is omitted
  and exactly one warning is recorded. At the corpus of a note with the identifier
  \<^verbatim>\<open>constructor\<close> and a note that refers to it and to a title that does not exist,
  exactly one reference is not in the title map, and the build does not complete:
  \<^verbatim>\<open>backlinks[targetSlug]\<close> reads the function inherited from
  \<^verbatim>\<open>Object.prototype\<close>, and \<^verbatim>\<open>generateBacklinks\<close> throws a \<^verbatim>\<open>TypeError\<close>
  before it writes its file. The graph script on the same corpus, which keeps its edges
  in an array, has both nodes and the one edge.
\<close>

theorem unresolved_link_build_throws:
  "filter (\<lambda>(a, t). titleToSlugMap [constructor_note, seeker] (toLowerCase t) = None)
     (references [constructor_note, seeker]) = [(''s'', ''nope'')]
   \<and> build documents_only [constructor_note, seeker] fresh = Inl TypeError
   \<and> node_ids (graphData [constructor_note, seeker]) = [''constructor'', ''s'']
   \<and> edge_pairs (graphData [constructor_note, seeker]) = [(''s'', ''constructor'')]"
proof -
  have "backlinks_for (titleToSlugMap [constructor_note, seeker]) [constructor_note, seeker]
          ([], console fresh @ [Log ''Generating backlinks...'']) = Inl TypeError"
    by code_simp
  then have "build documents_only [constructor_note, seeker] fresh = Inl TypeError"
    by (simp add: build_def generateBacklinks_def)
  moreover
  have "filter (\<lambda>(a, t). titleToSlugMap [constructor_note, seeker] (toLowerCase t) = None)
          (references [constructor_note, seeker]) = [(''s'', ''nope'')]"
    by code_simp
  moreover
  have "node_ids (graphData [constructor_note, seeker]) = [''constructor'', ''s'']"
    by code_simp
  moreover
  have "edge_pairs (graphData [constructor_note, seeker]) = [(''s'', ''constructor'')]"
    by code_simp
  ultimately show ?thesis by simp
qed

text \<open>
  Claim C4 (backlink symmetry). The backlinks file and the graph file of a build are
  inverse to each other: an identifier \<open>a\<close> is in the backlink array of the target
  \<open>b\<close> exactly when the pair \<open>(a, b)\<close> is an edge of the graph. The build writes both
  files whenever no identifier of the corpus is the name of a property inherited from
  \<^verbatim>\<open>Object.prototype\<close>; when a reference resolves to such an identifier,
  \<^verbatim>\<open>generateBacklinks\<close> throws and no file is written.
\<close>

theorem backlink_symmetry:
  "((\<forall>e\<in>set allContent. slug e \<notin> set object_prototype_keys) \<longrightarrow>
      (\<exists>w'. build lunr allContent w = Inr w'))
   \<and> (\<forall>w'. build lunr allContent w = Inr w' \<longrightarrow>
        (\<exists>bl. files w' ''src/data/backlinks.json'' = Some (BacklinksJson bl)
           \<and> files w' ''src/data/graph-data.json'' = Some (GraphJson (graphData allContent))
           \<and> (\<forall>a b. a \<in> set (incomingLinks bl b) \<longleftrightarrow>
                       (a, b) \<in> edge_set (graphData allContent))))"
proof (intro conjI allI impI)
  assume "\<forall>e\<in>set allContent. slug e \<notin> set object_prototype_keys"
  then show "\<exists>w'. build lunr allContent w = Inr w'" by (rule build_total)
next
  fix w'
  assume "build lunr allContent w = Inr w'"
  from build_files [OF this] obtain bl
    where "files w' ''src/data/backlinks.json'' = Some (BacklinksJson bl)"
      and "files w' ''src/data/graph-data.json'' = Some (GraphJson (graphData allContent))"
      and s: "\<forall>b. set (incomingLinks bl b) =
                 {slug e | e. e \<in> set allContent
                    \<and> b \<in> set (targets (titleToSlugMap allContent) (textContent e))}
               \<and> distinct (incomingLinks bl b)"
    by blast
  moreover have "\<forall>a b. a \<in> set (incomingLinks bl b) \<longleftrightarrow>
                       (a, b) \<in> edge_set (graphData allContent)"
    using s by (auto simp: edge_set_graphData)
  ultimately show "\<exists>bl. files w' ''src/data/backlinks.json'' = Some (BacklinksJson bl)
           \<and> files w' ''src/data/graph-data.json'' = Some (GraphJson (graphData allContent))
           \<and> (\<forall>a b. a \<in> set (incomingLinks bl b) \<longleftrightarrow>
                       (a, b) \<in> edge_set (graphData allContent))"
    by blast
qed

theorem backlink_symmetry_witness:
  "\<exists>w' bl. build documents_only [apple, banana] fresh = Inr w'
     \<and> files w' ''src/data/backlinks.json'' = Some (BacklinksJson bl)
     \<and> ''a'' \<in> set (incomingLinks bl ''b'')
     \<and> (''a'', ''b'') \<in> edge_set (graphData [apple, banana])"
proof -
  have h: "\<forall>e\<in>set [apple, banana]. slug e \<notin> set object_prototype_keys"
    by code_simp
  have g: "(''a'', ''b'') \<in> edge_set (graphData [apple, banana])"
    by code_simp
  from backlink_symmetry [of "[apple, banana]" documents_only fresh] h g
  show ?thesis by blast
qed

text \<open>
  A title with one space and a reference with two: the lower-cased reference text is not
  a key of the title map, and the graph has no edge.
\<close>

theorem whitespace_not_collapsed_counterexample:
  "title spaced = ''Foo Bar''
   \<and> linkedTitles (textContent spacer) = [''foo  bar'']
   \<and> titleToSlugMap [spaced, spacer] (toLowerCase ''foo  bar'') = None
   \<and> edges (graphData [spaced, spacer]) = []"
  by code_simp

text \<open>
  Claim C5, amended. The normalization of titles and of reference texts is lower-casing
  alone; whitespace is kept as written. A reference text that is equal to the title of a
  document after lower-casing resolves, in both scripts, to a document whose title is
  equal to it after lower-casing.
\<close>

theorem case_insensitive_resolution:
  assumes "d \<in> set allContent" and "toLowerCase t = toLowerCase (title d)"
  shows "\<exists>d'\<in>set allContent. toLowerCase (title d') = toLowerCase (title d)
           \<and> titleToSlugMap allContent (toLowerCase t) = Some (slug d')
           \<and> snd (first_pass allContent) (toLowerCase t) = Some (slug d')"
proof -
  let ?es = "filter (\<lambda>e. toLowerCase (title e) = toLowerCase t) allContent"
  from assms have "d \<in> set ?es" by simp
  then have ne: "?es \<noteq> []" by (metis empty_iff empty_set)
  then have "last ?es \<in> set ?es" by (rule last_in_set)
  then have "last ?es \<in> set allContent"
    and "toLowerCase (title (last ?es)) = toLowerCase (title d)"
    using assms(2) by auto
  moreover from ne have "titleToSlugMap allContent (toLowerCase t) = Some (slug (last ?es))"
    by (simp add: titleToSlugMap_last Let_def)
  ultimately show ?thesis by (auto simp: first_pass_eq)
qed

theorem case_insensitive_resolution_witness:
  "\<exists>d'\<in>set [apple, banana]. toLowerCase (title d') = toLowerCase (title banana)
           \<and> titleToSlugMap [apple, banana] (toLowerCase ''bAnAnA'') = Some (slug d')
           \<and> snd (first_pass [apple, banana]) (toLowerCase ''bAnAnA'') = Some (slug d')"
proof -
  have h1: "banana \<in> set [apple, banana]" by simp
  have h2: "toLowerCase ''bAnAnA'' = toLowerCase (title banana)" by code_simp
  show ?thesis by (rule case_insensitive_resolution [OF h1 h2])
qed

text \<open>
  A note with identifier b and a concept with identifier a: the notes come first in
  \<^verbatim>\<open>allContent\<close>, and the node array is not sorted by identifier.
\<close>

theorem artifacts_not_sorted_counterexample:
  "node_ids (graphData [banana, acorn]) = [''b'', ''a'']
   \<and> \<not> sorted (node_ids (graphData [banana, acorn]))"
  by code_simp

text \<open>
  Claim C6, amended. The arrays are written in corpus order and are not sorted: the node
  array lists the identifiers in the order of \<^verbatim>\<open>allContent\<close>; the edge array lists
  the edges source by source in that order and, for one source, in the order of the
  references in its text; the documents given to the search library are in corpus order.
\<close>

theorem artifacts_in_corpus_order:
  "node_ids (graphData allContent) = map slug allContent
   \<and> edge_pairs (graphData allContent) =
       concat (map (\<lambda>e. map (Pair (slug e))
                 (targets (titleToSlugMap allContent) (textContent e))) allContent)
   \<and> map d_id (fst (search_loop allContent)) = map slug allContent"
  by (simp add: node_ids_graphData edge_pairs_graphData search_loop_documents
        document_of_def comp_def)

theorem artifacts_in_corpus_order_witness:
  "node_ids (graphData [banana, acorn]) = map slug [banana, acorn]
   \<and> edge_pairs (graphData [banana, acorn]) =
       concat (map (\<lambda>e. map (Pair (slug e))
                 (targets (titleToSlugMap [banana, acorn]) (textContent e))) [banana, acorn])
   \<and> map d_id (fst (search_loop [banana, acorn])) = map slug [banana, acorn]"
  by (rule artifacts_in_corpus_order)

text \<open>
  Claim C7 (no dangling edges). For every corpus, every edge of the graph data has its
  \<^verbatim>\<open>from\<close> and its \<^verbatim>\<open>to\<close> identifier among the identifiers of the nodes, and it
  comes from a reference of the source entry whose lower-cased text is a key of the title
  map with the edge's target as value. No edge stands for a reference that failed to
  resolve: there are exactly as many edges as references that resolve.
\<close>

theorem no_dangling_edges:
  "e \<in> set (edges (graphData allContent)) \<Longrightarrow>
     e_from e \<in> set (node_ids (graphData allContent))
     \<and> e_to e \<in> set (node_ids (graphData allContent))
     \<and> (\<exists>entry\<in>set allContent. \<exists>t\<in>set (linkedTitles (textContent entry)).
           slug entry = e_from e
           \<and> titleToSlugMap allContent (toLowerCase t) = Some (e_to e))
     \<and> length (edges (graphData allContent)) =
         length (filter (\<lambda>(a, t). resolve (titleToSlugMap allContent) t \<noteq> None)
                   (references allContent))"
proof -
  assume "e \<in> set (edges (graphData allContent))"
  then obtain entry b where entry: "entry \<in> set allContent"
    and b: "b \<in> set (targets (titleToSlugMap allContent) (textContent entry))"
    and e: "e = link (slug entry) b"
    by (auto simp: graphData_eq)
  from targets_are_slugs [OF b] obtain t d
    where t: "t \<in> set (linkedTitles (textContent entry))"
      and d: "d \<in> set allContent" "slug d = b"
      and m: "titleToSlugMap allContent (toLowerCase t) = Some b"
    by blast
  from e have ft: "e_from e = slug entry" "e_to e = b" by (simp_all add: link_def)
  from entry ft have "e_from e \<in> set (node_ids (graphData allContent))"
    by (simp add: node_ids_graphData)
  moreover from d ft have "e_to e \<in> set (node_ids (graphData allContent))"
    by (auto simp: node_ids_graphData)
  moreover from entry t m ft
  have "\<exists>entry\<in>set allContent. \<exists>t\<in>set (linkedTitles (textContent entry)).
           slug entry = e_from e
           \<and> titleToSlugMap allContent (toLowerCase t) = Some (e_to e)"
    by auto
  ultimately show ?thesis using length_edges_graphData by blast
qed

theorem no_dangling_edges_witness:
  "link ''a'' ''b'' \<in> set (edges (graphData [apple, banana]))
   \<and> ''a'' \<in> set (node_ids (graphData [apple, banana]))
   \<and> ''b'' \<in> set (node_ids (graphData [apple, banana]))"
proof -
  have h: "link ''a'' ''b'' \<in> set (edges (graphData [apple, banana]))"
    by code_simp
  from no_dangling_edges [OF h] h show ?thesis by (simp add: link_def)
qed

text \<open>
  Claim C9 (idempotence). The three files a build writes are a function of the corpus
  alone (and of the library call): a build started from any other world writes the same
  backlinks, search and graph files, and a second build on the world the first one left
  succeeds and leaves every file as it was.
\<close>

theorem build_idempotent:
  assumes "build lunr allContent w = Inr (w1 :: 'i world)"
  shows "(\<exists>w2. build lunr allContent w1 = Inr w2 \<and> files w2 = files w1)
         \<and> (\<forall>v :: 'i world. \<exists>v1. build lunr allContent v = Inr v1
               \<and> files v1 ''src/data/backlinks.json'' = files w1 ''src/data/backlinks.json''
               \<and> files v1 ''src/data/search-index.json'' = files w1 ''src/data/search-index.json''
               \<and> files v1 ''src/data/graph-data.json'' = files w1 ''src/data/graph-data.json'')"
proof -
  from build_world [OF assms] obtain bl
    where all: "\<forall>v :: 'i world. \<exists>v1. build lunr allContent v = Inr v1
           \<and> files v1 = (files v)
               (''src/data/backlinks.json'' \<mapsto> BacklinksJson bl,
                ''src/data/search-index.json'' \<mapsto>
                   SearchJson (lunr ''id'' lunr_fields (fst (search_loop allContent)))
                              (snd (search_loop allContent)),
                ''src/data/graph-data.json'' \<mapsto> GraphJson (graphData allContent))"
    by blast
  from all [rule_format, of w] assms
  have f1: "files w1 = (files w)
               (''src/data/backlinks.json'' \<mapsto> BacklinksJson bl,
                ''src/data/search-index.json'' \<mapsto>
                   SearchJson (lunr ''id'' lunr_fields (fst (search_loop allContent)))
                              (snd (search_loop allContent)),
                ''src/data/graph-data.json'' \<mapsto> GraphJson (graphData allContent))"
    by auto
  from all [rule_format, of w1] obtain w2
    where b2: "build lunr allContent w1 = Inr w2"
      and f2: "files w2 = (files w1)
               (''src/data/backlinks.json'' \<mapsto> BacklinksJson bl,
                ''src/data/search-index.json'' \<mapsto>
                   SearchJson (lunr ''id'' lunr_fields (fst (search_loop allContent)))
                              (snd (search_loop allContent)),
                ''src/data/graph-data.json'' \<mapsto> GraphJson (graphData allContent))"
    by blast
  from f1 f2 have "files w2 = files w1" by (auto simp: fun_eq_iff)
  with b2 have first: "\<exists>w2. build lunr allContent w1 = Inr w2 \<and> files w2 = files w1"
    by blast
  have "\<exists>v1. build lunr allContent v = Inr v1
               \<and> files v1 ''src/data/backlinks.json'' = files w1 ''src/data/backlinks.json''
               \<and> files v1 ''src/data/search-index.json'' = files w1 ''src/data/search-index.json''
               \<and> files v1 ''src/data/graph-data.json'' = files w1 ''src/data/graph-data.json''"
    for v :: "'i world"
  proof -
    from all [rule_format, of v] obtain v1
      where "build lunr allContent v = Inr v1"
        and "files v1 = (files v)
               (''src/data/backlinks.json'' \<mapsto> BacklinksJson bl,
                ''src/data/search-index.json'' \<mapsto>
                   SearchJson (lunr ''id'' lunr_fields (fst (search_loop allContent)))
                              (snd (search_loop allContent)),
                ''src/data/graph-data.json'' \<mapsto> GraphJson (graphData allContent))"
      by blast
    with f1 show ?thesis by simp
  qed
  with first show ?thesis by blast
qed

theorem build_idempotent_witness:
  "\<exists>w1 w2. build documents_only [apple, banana] fresh = Inr w1
     \<and> build documents_only [apple, banana] w1 = Inr w2 \<and> files w2 = files w1"
proof -
  have "\<forall>e\<in>set [apple, banana]. slug e \<notin> set object_prototype_keys" by code_simp
  from build_total [OF this] obtain w1
    where h: "build documents_only [apple, banana] fresh = Inr w1" by blast
  from build_idempotent [OF h] h show ?thesis by blast
qed

text \<open>
  Claim C10 (edges per occurrence, backlinks once). In a corpus with unique identifiers,
  for a document whose text has \<open>k\<close> references that resolve to the same target,
  \<open>k \<ge> 2\<close>, the edge array of the graph file has exactly \<open>k\<close> entries from the
  document to the target, and the backlink array of the target in the backlinks file has
  the document's identifier exactly once.
\<close>

theorem edges_per_occurrence_backlinks_once:
  assumes "distinct (map slug allContent)"
    and "d \<in> set allContent"
    and "count_list (targets (titleToSlugMap allContent) (textContent d)) b = k"
    and "2 \<le> k"
    and "build lunr allContent w = Inr w'"
  shows "count_list (edge_pairs (graphData allContent)) (slug d, b) = k
         \<and> files w' ''src/data/graph-data.json'' = Some (GraphJson (graphData allContent))
         \<and> (\<exists>bl. files w' ''src/data/backlinks.json'' = Some (BacklinksJson bl)
                \<and> count_list (incomingLinks bl b) (slug d) = 1)"
proof -
  from assms(1-3) have c: "count_list (edge_pairs (graphData allContent)) (slug d, b) = k"
    by (simp add: count_edge_pairs)
  from assms(3,4) have "count_list (targets (titleToSlugMap allContent) (textContent d)) b \<noteq> 0"
    by simp
  then have in_t: "b \<in> set (targets (titleToSlugMap allContent) (textContent d))"
    by (simp add: count_list_0_iff)
  from build_files [OF assms(5)] obtain bl
    where f: "files w' ''src/data/backlinks.json'' = Some (BacklinksJson bl)"
      and g: "files w' ''src/data/graph-data.json'' = Some (GraphJson (graphData allContent))"
      and s: "\<forall>b. set (incomingLinks bl b) =
                 {slug e | e. e \<in> set allContent
                    \<and> b \<in> set (targets (titleToSlugMap allContent) (textContent e))}
               \<and> distinct (incomingLinks bl b)"
    by blast
  from s in_t assms(2) have "slug d \<in> set (incomingLinks bl b)" by auto
  moreover from s have "distinct (incomingLinks bl b)" by blast
  ultimately have "count_list (incomingLinks bl b) (slug d) = 1"
    by (simp add: count_list_distinct)
  with c f g show ?thesis by blast
qed

theorem edges_per_occurrence_backlinks_once_witness:
  "\<exists>w'. build documents_only [cherry, banana] fresh = Inr w'
     \<and> count_list (edge_pairs (graphData [cherry, banana])) (''c'', ''b'') = 3
     \<and> (\<exists>bl. files w' ''src/data/backlinks.json'' = Some (BacklinksJson bl)
            \<and> count_list (incomingLinks bl ''b'') ''c'' = 1)"
proof -
  have h1: "distinct (map slug [cherry, banana])" by code_simp
  have h2: "cherry \<in> set [cherry, banana]" by simp
  have h3: "count_list (targets (titleToSlugMap [cherry, banana]) (textContent cherry)) ''b'' = 3"
    by code_simp
  have h4: "(2::nat) \<le> 3" by simp
  have s: "slug cherry = ''c''" by code_simp
  have "\<forall>e\<in>set [cherry, banana]. slug e \<notin> set object_prototype_keys" by code_simp
  from build_total [OF this] obtain w'
    where h5: "build documents_only [cherry, banana] fresh = Inr w'" by blast
  from edges_per_occurrence_backlinks_once [OF h1 h2 h3 h4 h5] h5 s
  show ?thesis by auto
qed

end
